theory Spec2Isabelle
  imports Main "HOL-Library.AList"
begin

section \<open>Strings\<close>

text \<open>
  A JavaScript string is modelled as a \<^typ>\<open>string\<close>, one \<^typ>\<open>char\<close> per code unit; the
  model covers the code units U+0000 to U+00FF (Latin-1).
\<close>

abbreviation LF :: char where "LF \<equiv> CHR 0x0A"
abbreviation CR :: char where "CR \<equiv> CHR 0x0D"

text \<open>\<open>s.toLowerCase()\<close>: the upper-case letters below U+0100 are A-Z and U+00C0-U+00DE
  without the multiplication sign U+00D7; each one is 32 below its lower-case form.\<close>

definition lowerChar :: "char \<Rightarrow> char" where
  "lowerChar c =
     (let n = (of_char c :: nat)
      in if 65 \<le> n \<and> n \<le> 90 then char_of (n + 32)
         else if 192 \<le> n \<and> n \<le> 222 \<and> n \<noteq> 215 then char_of (n + 32)
         else c)"

definition toLowerCase :: "string \<Rightarrow> string" where
  "toLowerCase s = map lowerChar s"

text \<open>The white space and line terminators that \<open>trimEnd\<close> removes, below U+0100:
  TAB, LF, VT, FF, CR, SPACE and NBSP.\<close>

definition isWhiteSpace :: "char \<Rightarrow> bool" where
  "isWhiteSpace c = ((of_char c :: nat) \<in> {9, 10, 11, 12, 13, 32, 160})"

definition trimEnd :: "string \<Rightarrow> string" where
  "trimEnd s = rev (dropWhile isWhiteSpace (rev s))"

text \<open>\<open>s.split("\n")\<close>: never empty, the last element is what follows the last line-feed.\<close>

fun split_LF :: "string \<Rightarrow> string list" where
  "split_LF [] = [[]]"
| "split_LF (c # cs) =
     (if c = LF then [] # split_LF cs
      else (let rest = split_LF cs in (c # hd rest) # tl rest))"

text \<open>\<open>xs.join("\n")\<close>; the empty array joins to the empty string.\<close>

fun join_LF :: "string list \<Rightarrow> string" where
  "join_LF [] = []"
| "join_LF [l] = l"
| "join_LF (l # m # ls) = l @ LF # join_LF (m # ls)"

text \<open>\<open>line.replace(/\r/g, "")\<close>\<close>

definition stripCR :: "string \<Rightarrow> string" where
  "stripCR line = filter (\<lambda>c. c \<noteq> CR) line"

text \<open>\<open>content.replace(/\n+/g, "\n")\<close>: every maximal run of line-feeds becomes one.\<close>

fun collapseNewlines :: "string \<Rightarrow> string" where
  "collapseNewlines [] = []"
| "collapseNewlines [c] = [c]"
| "collapseNewlines (c # d # cs) =
     (if c = LF \<and> d = LF then collapseNewlines (d # cs)
      else c # collapseNewlines (d # cs))"

section \<open>The trailing-newline pattern\<close>

text \<open>
  \<open>trailingNewlinesRegex = /(\n+|\r\n+)$/\<close> has no \<open>m\<close> flag, so \<open>$\<close> is the end of the
  input. A match starting at \<open>i\<close> is therefore all of \<open>drop i s\<close>, which is one or more
  line-feeds, or a carriage return and one or more line-feeds; the engine takes the
  leftmost start.
\<close>

definition matchesTrailing :: "string \<Rightarrow> bool" where
  "matchesTrailing t =
     (case t of
        [] \<Rightarrow> False
      | c # u \<Rightarrow>
          if c = LF then list_all (\<lambda>d. d = LF) u
          else if c = CR then (u \<noteq> [] \<and> list_all (\<lambda>d. d = LF) u)
          else False)"

definition trailingNewlinesMatch :: "string \<Rightarrow> nat option" where
  "trailingNewlinesMatch s = find (\<lambda>i. matchesTrailing (drop i s)) [0..<length s]"

definition getTrailingNewlinesCount :: "string \<Rightarrow> nat" where
  "getTrailingNewlinesCount content =
     (case trailingNewlinesMatch content of
        None \<Rightarrow> 0
      | Some i \<Rightarrow> length content - i)"

text \<open>\<open>content.replace(trailingNewlinesRegex, "\n")\<close>\<close>

definition replaceTrailingNewlines :: "string \<Rightarrow> string" where
  "replaceTrailingNewlines s =
     (case trailingNewlinesMatch s of
        None \<Rightarrow> s
      | Some i \<Rightarrow> take i s @ [LF])"

definition updateTrailingNewlines :: "string \<Rightarrow> nat \<Rightarrow> string" where
  "updateTrailingNewlines content trailingNewlinesCount =
     (let content' = collapseNewlines content
      in if trailingNewlinesCount \<ge> 1 then replaceTrailingNewlines content'
         else trimEnd content')"

section \<open>Default Dedup\<close>

definition compareLineWithPreviousLine :: "string \<Rightarrow> nat \<Rightarrow> string list \<Rightarrow> bool \<Rightarrow> bool" where
  "compareLineWithPreviousLine line index lines ignoreCase =
     (if ignoreCase
      then (if index = 0 then True
            else toLowerCase (lines ! (index - 1)) \<noteq> toLowerCase line)
      else (if index = 0 then True else lines ! (index - 1) \<noteq> line))"

text \<open>The callback of \<open>lines.filter((line, index) => ...)\<close> in \<open>processContent\<close>: the
  parameter \<open>line\<close> is overwritten by its form without carriage returns, \<open>lines[index - 1]\<close>
  is read from the array as it is.\<close>

definition keepLine :: "bool \<Rightarrow> string list \<Rightarrow> nat \<Rightarrow> bool" where
  "keepLine ignoreCase lines index =
     (let line = stripCR (lines ! index)
      in if line = [] then True
         else compareLineWithPreviousLine line index lines ignoreCase)"

definition uniqueLines :: "string \<Rightarrow> bool \<Rightarrow> string list" where
  "uniqueLines content ignoreCase =
     (let lines = split_LF content
      in map (\<lambda>i. lines ! i) (filter (keepLine ignoreCase lines) [0..<length lines]))"

definition processContent :: "string \<Rightarrow> bool \<Rightarrow> string" where
  "processContent content ignoreCase =
     (let outWithDuplicateNewslines = join_LF (uniqueLines content ignoreCase);
          trailingNewlinesCount = getTrailingNewlinesCount content
      in updateTrailingNewlines outWithDuplicateNewslines trailingNewlinesCount)"

section \<open>The count table, a JavaScript object\<close>

text \<open>
  \<open>LineCount\<close> is an object literal \<open>{}\<close> used as a table from lines to counts. Its own
  properties are kept in creation order. Its prototype is \<open>Object.prototype\<close>, so reading
  a key the object does not own finds the inherited member of that name, when there is
  one. The values that can be read are \<open>undefined\<close>, \<open>NaN\<close>, a number, a string, or an
  inherited member (a built-in function, or the prototype itself under \<open>__proto__\<close>).
\<close>

datatype jsval = Undefined | NaN | Num nat | Str string | Inherited string

type_synonym LineCount = "(string \<times> jsval) list"

definition prototypeFunctions :: "string list" where
  "prototypeFunctions =
     [''constructor'', ''__defineGetter__'', ''__defineSetter__'', ''hasOwnProperty'',
      ''__lookupGetter__'', ''__lookupSetter__'', ''isPrototypeOf'',
      ''propertyIsEnumerable'', ''toString'', ''valueOf'', ''toLocaleString'']"

definition inheritedNames :: "string list" where
  "inheritedNames = ''__proto__'' # prototypeFunctions"

text \<open>\<open>obj[key]\<close>, read.\<close>

definition getProp :: "LineCount \<Rightarrow> string \<Rightarrow> jsval" where
  "getProp obj key =
     (case map_of obj key of
        Some v \<Rightarrow> v
      | None \<Rightarrow> if key \<in> set inheritedNames then Inherited key else Undefined)"

text \<open>\<open>obj[key] = v\<close> for a number or string \<open>v\<close>: an own property is overwritten in place,
  a new one is appended; the inherited setter of \<open>__proto__\<close> ignores such a value and
  creates nothing.\<close>

definition setProp :: "LineCount \<Rightarrow> string \<Rightarrow> jsval \<Rightarrow> LineCount" where
  "setProp obj key v = (if key = ''__proto__'' then obj else AList.update key v obj)"

text \<open>\<open>Object.keys(obj)\<close>: the array indices (canonical decimal numerals up to \<open>2^32 - 2\<close>)
  in ascending order, then the other keys in creation order.\<close>

definition isDigit :: "char \<Rightarrow> bool" where
  "isDigit c = (48 \<le> (of_char c :: nat) \<and> (of_char c :: nat) \<le> 57)"

definition digitsValue :: "string \<Rightarrow> int" where
  "digitsValue s = foldl (\<lambda>acc c. 10 * acc + ((of_char c :: int) - 48)) 0 s"

definition isArrayIndex :: "string \<Rightarrow> bool" where
  "isArrayIndex s =
     (if s = [] then False
      else if \<not> list_all isDigit s then False
      else if hd s = CHR ''0'' \<and> length s > 1 then False
      else if length s > 10 then False
      else digitsValue s \<le> 4294967294)"

definition objectKeys :: "LineCount \<Rightarrow> string list" where
  "objectKeys obj =
     (let keys = map fst obj
      in sort_key digitsValue (filter isArrayIndex keys)
         @ filter (\<lambda>k. \<not> isArrayIndex k) keys)"

text \<open>Decimal numerals, for the template literal \<open>`${count} ${line}`\<close>.\<close>

fun showNat :: "nat \<Rightarrow> string" where
  "showNat n =
     (if n < 10 then [char_of (48 + n)]
      else showNat (n div 10) @ [char_of (48 + n mod 10)])"

declare showNat.simps [simp del]

text \<open>The text of an inherited member when it is converted to a string (as V8 prints a
  built-in function).\<close>

definition inheritedText :: "string \<Rightarrow> string" where
  "inheritedText name =
     (if name = ''__proto__'' then ''[object Object]''
      else if name = ''constructor'' then ''function Object() { [native code] }''
      else ''function '' @ name @ ''() { [native code] }'')"

definition toText :: "jsval \<Rightarrow> string" where
  "toText v =
     (case v of
        Undefined \<Rightarrow> ''undefined''
      | NaN \<Rightarrow> ''NaN''
      | Num n \<Rightarrow> showNat n
      | Str s \<Rightarrow> s
      | Inherited name \<Rightarrow> inheritedText name)"

definition truthy :: "jsval \<Rightarrow> bool" where
  "truthy v =
     (case v of
        Undefined \<Rightarrow> False
      | NaN \<Rightarrow> False
      | Num n \<Rightarrow> n \<noteq> 0
      | Str s \<Rightarrow> s \<noteq> []
      | Inherited name \<Rightarrow> True)"

text \<open>\<open>v + 1\<close>: addition on numbers, concatenation with \<open>"1"\<close> on everything that converts
  to a string first.\<close>

definition plusOne :: "jsval \<Rightarrow> jsval" where
  "plusOne v =
     (case v of
        Undefined \<Rightarrow> NaN
      | NaN \<Rightarrow> NaN
      | Num n \<Rightarrow> Num (n + 1)
      | Str s \<Rightarrow> Str (s @ ''1'')
      | Inherited name \<Rightarrow> Str (inheritedText name @ ''1''))"

text \<open>\<open>v > 1\<close>. A string is converted to a number first; the strings this program stores
  begin with the text of an inherited member, which converts to \<open>NaN\<close>, and every
  comparison with \<open>NaN\<close> is false.\<close>

definition greaterThanOne :: "jsval \<Rightarrow> bool" where
  "greaterThanOne v = (case v of Num n \<Rightarrow> n > 1 | _ \<Rightarrow> False)"

definition findLineKey :: "LineCount \<Rightarrow> string \<Rightarrow> string" where
  "findLineKey caseInsensitiveLinesCount line =
     fold (\<lambda>key lineKey. if toLowerCase key = toLowerCase line then key else lineKey)
       (objectKeys caseInsensitiveLinesCount) []"

text \<open>\<open>if (lineKey)\<close> tests the string for being non-empty.\<close>

definition buildCaseInsensitiveLinesCount :: "string \<Rightarrow> LineCount" where
  "buildCaseInsensitiveLinesCount rawContent =
     fold (\<lambda>line caseInsensitiveLinesCount.
             let lowerCaseLine = toLowerCase line;
                 lineKey = findLineKey caseInsensitiveLinesCount lowerCaseLine
             in if lineKey \<noteq> []
                then setProp caseInsensitiveLinesCount lineKey
                       (plusOne (getProp caseInsensitiveLinesCount lineKey))
                else setProp caseInsensitiveLinesCount line (Num 1))
       (split_LF rawContent) []"

text \<open>\<open>linesCount[line] = (linesCount[line] || 0) + 1\<close>\<close>

definition buildCaseSensitiveLineCount :: "string \<Rightarrow> LineCount" where
  "buildCaseSensitiveLineCount rawContent =
     fold (\<lambda>line linesCount.
             let old = getProp linesCount line
             in setProp linesCount line (plusOne (if truthy old then old else Num 0)))
       (split_LF rawContent) []"

text \<open>The parameter named \<open>caseSensitive\<close> selects the case-insensitive table.\<close>

definition buildLinesCount :: "string \<Rightarrow> bool \<Rightarrow> LineCount" where
  "buildLinesCount rawContent caseSensitive =
     (if caseSensitive then buildCaseInsensitiveLinesCount rawContent
      else buildCaseSensitiveLineCount rawContent)"

definition getOutputWithCount :: "string \<Rightarrow> LineCount \<Rightarrow> bool \<Rightarrow> string" where
  "getOutputWithCount rawContent linesCount countEnabled =
     (let outputLines = split_LF rawContent;
          outputWithCount =
            map (\<lambda>line.
                   if countEnabled
                   then (let key = findLineKey linesCount line;
                             count = getProp linesCount key
                         in toText count @ '' '' @ line)
                   else (let count = getProp linesCount line
                         in toText count @ '' '' @ line))
              outputLines
      in join_LF outputWithCount)"

text \<open>\<open>Array.from(new Set(xs))\<close>: the distinct elements in order of first occurrence.\<close>

definition arrayFromSet :: "string list \<Rightarrow> string list" where
  "arrayFromSet xs = fold (\<lambda>x acc. if x \<in> set acc then acc else acc @ [x]) xs []"

section \<open>Notions used in the proofs\<close>

text \<open>A text has no blank line after its first line when no two line-feeds are adjacent.\<close>

fun noDoubleLF :: "string \<Rightarrow> bool" where
  "noDoubleLF (c # d # cs) = (\<not> (c = LF \<and> d = LF) \<and> noDoubleLF (d # cs))"
| "noDoubleLF _ = True"

text \<open>The keep rule of \<open>processContent\<close> as a recursion over the lines that carries the
  line before: \<open>uniqueLines_rec\<close> below proves that the filter by index computes it.\<close>

definition caseFold :: "bool \<Rightarrow> string \<Rightarrow> string" where
  "caseFold ic s = (if ic then toLowerCase s else s)"

definition keepAfter :: "bool \<Rightarrow> string \<Rightarrow> string \<Rightarrow> bool" where
  "keepAfter ic prev line =
     (if stripCR line = [] then True
      else caseFold ic prev \<noteq> caseFold ic (stripCR line))"

fun adjDedup :: "bool \<Rightarrow> string \<Rightarrow> string list \<Rightarrow> string list" where
  "adjDedup ic prev [] = []"
| "adjDedup ic prev (x # xs) =
     (if keepAfter ic prev x then x # adjDedup ic x xs
      else adjDedup ic x xs)"

text \<open>A plain text has no carriage return, no two adjacent line-feeds and, unless it ends
  with a line-feed, no white space at its end.\<close>

definition plainText :: "string \<Rightarrow> bool" where
  "plainText s =
     (if CR \<in> set s then False
      else if \<not> noDoubleLF s then False
      else if s = [] then True
      else if last s = LF then True
      else \<not> isWhiteSpace (last s))"

section \<open>Files, warnings and errors\<close>

text \<open>
  The file system is a table from the paths that exist to what is there: a file that
  can be read, with its text, a directory, or a file that may not be read; and the list
  of the paths that \<open>fs.writeFile\<close> cannot write. \<open>fs.access\<close> accepts every path that
  exists, \<open>fs.readFile\<close> only the files that can be read. \<open>console.warn\<close> appends to a
  list of warnings; a thrown \<open>Error\<close> (a rejected promise) ends the call with \<open>Inl\<close>.
\<close>

datatype node = File string | Directory | Unreadable string

record world =
  entries :: "(string \<times> node) list"
  unwritable :: "string list"

datatype error =
    InvalidPath string
  | ConflictingInputs
  | SystemError string

datatype warning =
    RepeatedAndUnique
  | InvalidPathUsingContent string

type_synonym 'a action = "warning list \<times> (error + 'a)"

definition ret :: "'a \<Rightarrow> 'a action" where
  "ret x = ([], Inr x)"

definition throw :: "error \<Rightarrow> 'a action" where
  "throw e = ([], Inl e)"

definition warn :: "warning \<Rightarrow> unit action" where
  "warn m = ([m], Inr ())"

definition andThen :: "'a action \<Rightarrow> ('a \<Rightarrow> 'b action) \<Rightarrow> 'b action" where
  "andThen m f =
     (case m of
        (ws, Inl e) \<Rightarrow> (ws, Inl e)
      | (ws, Inr x) \<Rightarrow> (case f x of (ws', r) \<Rightarrow> (ws @ ws', r)))"

text \<open>An optional string in a condition: \<open>undefined\<close> and \<open>""\<close> are false.\<close>

definition given :: "string option \<Rightarrow> bool" where
  "given s = (case s of None \<Rightarrow> False | Some t \<Rightarrow> t \<noteq> [])"

text \<open>An optional string inside a template literal.\<close>

definition pathText :: "string option \<Rightarrow> string" where
  "pathText s = (case s of None \<Rightarrow> ''undefined'' | Some t \<Rightarrow> t)"

text \<open>\<open>fs.access\<close> rejects \<open>undefined\<close>, the empty path and every path that is not there.\<close>

definition accessible :: "world \<Rightarrow> string option \<Rightarrow> bool" where
  "accessible w path =
     (case path of
        None \<Rightarrow> False
      | Some p \<Rightarrow> (case map_of (entries w) p of None \<Rightarrow> False | Some n \<Rightarrow> p \<noteq> []))"

definition assertFileExists :: "world \<Rightarrow> string option \<Rightarrow> unit action" where
  "assertFileExists w path =
     (if accessible w path then ret () else throw (InvalidPath (pathText path)))"

text \<open>\<open>fs.readFile(path, "utf-8")\<close> rejects with a system error (\<open>ENOENT\<close>, \<open>EISDIR\<close>,
  \<open>EACCES\<close>) unless the path is a file that can be read.\<close>

definition readFile :: "world \<Rightarrow> string option \<Rightarrow> string action" where
  "readFile w path =
     (case path of
        None \<Rightarrow> throw (SystemError (pathText path))
      | Some p \<Rightarrow>
          (case map_of (entries w) p of
             None \<Rightarrow> throw (SystemError p)
           | Some (File c) \<Rightarrow> ret c
           | Some Directory \<Rightarrow> throw (SystemError p)
           | Some (Unreadable c) \<Rightarrow> throw (SystemError p)))"

text \<open>\<open>fs.writeFile(path, text)\<close> creates the file or replaces its text; it fails on the
  empty path, on a directory and on the paths that cannot be written.\<close>

definition writeFile :: "world \<Rightarrow> string \<Rightarrow> string \<Rightarrow> world option" where
  "writeFile w path text =
     (if path = [] then None
      else if path \<in> set (unwritable w) then None
      else (case map_of (entries w) path of
              Some Directory \<Rightarrow> None
            | Some (Unreadable c) \<Rightarrow>
                Some (w\<lparr>entries := AList.update path (Unreadable text) (entries w)\<rparr>)
            | Some (File c) \<Rightarrow>
                Some (w\<lparr>entries := AList.update path (File text) (entries w)\<rparr>)
            | None \<Rightarrow>
                Some (w\<lparr>entries := AList.update path (File text) (entries w)\<rparr>)))"

definition writeToOutputFile :: "world \<Rightarrow> string \<Rightarrow> string \<Rightarrow> world action" where
  "writeToOutputFile w outputFilePath text =
     (let outputFileExists = accessible w (Some outputFilePath)
      in andThen
           (if \<not> outputFileExists
            then (case writeFile w outputFilePath [] of
                    None \<Rightarrow> throw (InvalidPath outputFilePath)
                  | Some w' \<Rightarrow> ret w')
            else ret w)
           (\<lambda>w'. case writeFile w' outputFilePath text of
                    None \<Rightarrow> throw (SystemError outputFilePath)
                  | Some w'' \<Rightarrow> ret w''))"

section \<open>Input resolution and the modes\<close>

definition getRawContent :: "world \<Rightarrow> string option \<Rightarrow> string option \<Rightarrow> string action" where
  "getRawContent w filePath content =
     (let fileExists = accessible w filePath
      in if fileExists \<and> \<not> given content then readFile w filePath
         else if \<not> fileExists \<and> given content
         then andThen (warn (InvalidPathUsingContent (pathText filePath)))
                (\<lambda>_. ret (the content))
         else if fileExists \<and> given content then throw ConflictingInputs
         else ret [])"

definition processFilePathAndContent ::
  "world \<Rightarrow> string option \<Rightarrow> string \<Rightarrow> bool \<Rightarrow> string action" where
  "processFilePathAndContent w filePath content ignoreCase =
     (let fileExists = accessible w filePath
      in if fileExists then throw ConflictingInputs
         else andThen (warn (InvalidPathUsingContent (pathText filePath)))
                (\<lambda>_. ret (processContent content ignoreCase)))"

definition processRepeatedLines ::
  "world \<Rightarrow> string option \<Rightarrow> string option \<Rightarrow> bool \<Rightarrow> bool \<Rightarrow> string action" where
  "processRepeatedLines w filePath content count ignoreCase =
     andThen (getRawContent w filePath content)
       (\<lambda>rawContent.
          let lines = split_LF rawContent
          in if ignoreCase
             then (let caseInsensitiveLinesCount = buildLinesCount rawContent ignoreCase;
                       repeatedLines =
                         filter (\<lambda>line. greaterThanOne (getProp caseInsensitiveLinesCount line))
                           (objectKeys caseInsensitiveLinesCount);
                       out = join_LF (arrayFromSet repeatedLines)
                   in if count
                      then ret (getOutputWithCount out caseInsensitiveLinesCount count)
                      else ret out)
             else (let linesCount = buildLinesCount rawContent False;
                       repeatedLines =
                         filter (\<lambda>line. greaterThanOne (getProp linesCount line)) lines;
                       out = join_LF (arrayFromSet repeatedLines)
                   in if count
                      then ret (getOutputWithCount out linesCount count)
                      else ret out))"

record zUniqOptions =
  filePath :: "string option"
  content :: "string option"
  outputPath :: "string option"
  count :: bool
  repeated :: bool
  unique :: bool
  ignoreCase :: bool

text \<open>The exported function. Its result is the field \<open>out\<close> and the file system it leaves.\<close>

definition zuniq :: "world \<Rightarrow> zUniqOptions \<Rightarrow> (string \<times> world) action" where
  "zuniq w opts =
     (if repeated opts \<and> unique opts
      then andThen (warn RepeatedAndUnique) (\<lambda>_. ret ([], w))
      else if repeated opts
      then andThen
             (processRepeatedLines w (filePath opts) (content opts) (count opts)
                (ignoreCase opts))
             (\<lambda>out. ret (out, w))
      else andThen
             (if given (filePath opts) \<and> given (content opts)
              then processFilePathAndContent w (filePath opts) (the (content opts))
                     (ignoreCase opts)
              else if given (content opts)
              then ret (processContent (the (content opts)) (ignoreCase opts))
              else andThen (assertFileExists w (filePath opts))
                     (\<lambda>_. andThen (readFile w (filePath opts))
                            (\<lambda>fileContent. ret (processContent fileContent (ignoreCase opts)))))
             (\<lambda>out.
                andThen
                  (if count opts
                   then andThen (getRawContent w (filePath opts) (content opts))
                          (\<lambda>rawContent.
                             let linesCount = buildLinesCount rawContent False
                             in ret (getOutputWithCount out linesCount (count opts)))
                   else ret out)
                  (\<lambda>out'.
                     if \<not> given (outputPath opts) then ret (out', w)
                     else andThen (writeToOutputFile w (the (outputPath opts)) out')
                            (\<lambda>w'. ret (out', w')))))"

text \<open>A file system with nothing in it, and the options all absent or false.\<close>

definition emptyWorld :: world where
  "emptyWorld = \<lparr>entries = [], unwritable = []\<rparr>"

definition noOptions :: zUniqOptions where
  "noOptions =
     \<lparr>filePath = None, content = None, outputPath = None, count = False,
      repeated = False, unique = False, ignoreCase = False\<rparr>"

section \<open>Splitting, joining and collapsing\<close>

lemma split_LF_nonempty [simp]: "split_LF s \<noteq> []"
  by (induction s) (auto simp: Let_def)

lemma join_LF_Cons_Cons: "join_LF ((c # h) # t) = c # join_LF (h # t)"
  by (cases t) auto

lemma join_LF_Nil_Cons: "t \<noteq> [] \<Longrightarrow> join_LF ([] # t) = LF # join_LF t"
  by (cases t) auto

lemma join_split: "join_LF (split_LF s) = s"
proof (induction s)
  case Nil
  show ?case by simp
next
  case (Cons c cs)
  obtain h t where r: "split_LF cs = h # t"
    using split_LF_nonempty [of cs] by (cases "split_LF cs") auto
  show ?case
  proof (cases "c = LF")
    case True
    then show ?thesis using Cons join_LF_Nil_Cons [of "split_LF cs"] by simp
  next
    case False
    then show ?thesis using Cons r by (simp add: Let_def join_LF_Cons_Cons)
  qed
qed

lemma split_LF_free: "l \<in> set (split_LF s) \<Longrightarrow> LF \<notin> set l"
proof (induction s arbitrary: l)
  case Nil
  then show ?case by simp
next
  case (Cons c cs)
  obtain h t where r: "split_LF cs = h # t"
    using split_LF_nonempty [of cs] by (cases "split_LF cs") auto
  show ?case
  proof (cases "c = LF")
    case True
    then show ?thesis using Cons by auto
  next
    case False
    then have "l = c # h \<or> l \<in> set t" using Cons.prems r by (simp add: Let_def)
    then show ?thesis using Cons.IH [of h] Cons.IH [of l] r False by auto
  qed
qed

lemma split_LF_chars: "l \<in> set (split_LF s) \<Longrightarrow> set l \<subseteq> set s"
proof (induction s arbitrary: l)
  case Nil
  then show ?case by simp
next
  case (Cons c cs)
  obtain h t where r: "split_LF cs = h # t"
    using split_LF_nonempty [of cs] by (cases "split_LF cs") auto
  show ?case
  proof (cases "c = LF")
    case True
    then show ?thesis using Cons by auto
  next
    case False
    then have "l = c # h \<or> l \<in> set t" using Cons.prems r by (simp add: Let_def)
    then show ?thesis using Cons.IH [of h] Cons.IH [of l] r by auto
  qed
qed

lemma split_LF_line: "LF \<notin> set l \<Longrightarrow> split_LF l = [l]"
  by (induction l) (auto simp: Let_def)

lemma split_LF_append: "LF \<notin> set l \<Longrightarrow> split_LF (l @ LF # t) = l # split_LF t"
  by (induction l) (auto simp: Let_def)

lemma split_join:
  "xs \<noteq> [] \<Longrightarrow> \<forall>l\<in>set xs. LF \<notin> set l \<Longrightarrow> split_LF (join_LF xs) = xs"
proof (induction xs rule: join_LF.induct)
  case 1
  then show ?case by simp
next
  case (2 l)
  then show ?case by (simp add: split_LF_line)
next
  case (3 l m ls)
  then show ?case by (simp add: split_LF_append)
qed

lemma join_LF_chars: "set (join_LF xs) \<subseteq> insert LF (\<Union>l\<in>set xs. set l)"
  by (induction xs rule: join_LF.induct) auto

lemma collapse_chars: "set (collapseNewlines s) \<subseteq> set s"
  by (induction s rule: collapseNewlines.induct) auto

lemma collapse_head: "\<exists>es. collapseNewlines (d # cs) = d # es"
proof (induction cs arbitrary: d)
  case Nil
  show ?case by simp
next
  case (Cons a cs)
  show ?case using Cons [of a] by auto
qed

lemma noDoubleLF_collapse: "noDoubleLF (collapseNewlines s)"
proof (induction s rule: collapseNewlines.induct)
  case 1 show ?case by simp
next
  case (2 c) show ?case by simp
next
  case (3 c d cs)
  show ?case
  proof (cases "c = LF \<and> d = LF")
    case True then show ?thesis using 3 by simp
  next
    case False
    obtain es where e: "collapseNewlines (d # cs) = d # es"
      using collapse_head [of d cs] by blast
    then show ?thesis using 3 False by auto
  qed
qed

lemma collapse_id: "noDoubleLF s \<Longrightarrow> collapseNewlines s = s"
  by (induction s rule: collapseNewlines.induct) auto

lemma noDoubleLF_append_left: "noDoubleLF (a @ b) \<Longrightarrow> noDoubleLF a"
  by (induction a rule: noDoubleLF.induct) auto

section \<open>The filter as a recursion, the trailing pattern, \<open>trimEnd\<close>\<close>

lemma keepLine_first: "keepLine ic xs 0"
  by (simp add: keepLine_def compareLineWithPreviousLine_def Let_def)

lemma keepLine_later:
  "pre \<noteq> [] \<Longrightarrow> keepLine ic (pre @ y # ys) (length pre) = keepAfter ic (last pre) y"
proof -
  assume pre: "pre \<noteq> []"
  then have "(pre @ y # ys) ! (length pre - 1) = last pre"
    by (simp add: nth_append last_conv_nth)
  then show ?thesis
    using pre
    by (simp add: keepLine_def keepAfter_def compareLineWithPreviousLine_def caseFold_def Let_def)
qed

lemma filter_by_index:
  "pre \<noteq> [] \<Longrightarrow>
   map (\<lambda>i. (pre @ ys) ! i)
     (filter (keepLine ic (pre @ ys)) [length pre ..< length pre + length ys])
   = adjDedup ic (last pre) ys"
proof (induction ys arbitrary: pre)
  case Nil
  show ?case by simp
next
  case (Cons y ys)
  have "length pre < length pre + length (y # ys)" by simp
  then have "[length pre ..< length pre + length (y # ys)]
             = length pre # [Suc (length pre) ..< length pre + length (y # ys)]"
    by (rule upt_conv_Cons)
  then have upt: "[length pre ..< length pre + length (y # ys)]
             = length pre # [length (pre @ [y]) ..< length (pre @ [y]) + length ys]"
    by simp
  have ih: "map (\<lambda>i. (pre @ y # ys) ! i)
              (filter (keepLine ic (pre @ y # ys))
                 [length (pre @ [y]) ..< length (pre @ [y]) + length ys])
            = adjDedup ic y ys"
    using Cons.IH [of "pre @ [y]"] by simp
  show ?case
    unfolding upt using ih keepLine_later [OF Cons.prems, of ic y ys]
    by (simp del: upt_Suc)
qed

lemma uniqueLines_rec:
  assumes "split_LF s = l # ls"
  shows "uniqueLines s ic = l # adjDedup ic l ls"
proof -
  have "0 < length (l # ls)" by simp
  then have "[0 ..< length (l # ls)] = 0 # [Suc 0 ..< length (l # ls)]"
    by (rule upt_conv_Cons)
  then have upt: "[0 ..< length (l # ls)] = 0 # [length [l] ..< length [l] + length ls]"
    by simp
  have "map (\<lambda>i. ([l] @ ls) ! i)
          (filter (keepLine ic ([l] @ ls)) [length [l] ..< length [l] + length ls])
        = adjDedup ic (last [l]) ls"
    by (rule filter_by_index) simp
  then show ?thesis
    unfolding uniqueLines_def Let_def assms upt
    using keepLine_first [of ic "l # ls"] by (simp del: upt_Suc)
qed

lemma matchesTrailing_last: "matchesTrailing t \<Longrightarrow> t \<noteq> [] \<and> last t = LF"
  by (cases t) (auto simp: matchesTrailing_def list_all_iff split: if_splits)

lemma matchesTrailing_single: "matchesTrailing [LF]"
  by (simp add: matchesTrailing_def)

lemma matchesTrailing_plain:
  "CR \<notin> set t \<Longrightarrow> noDoubleLF t \<Longrightarrow> matchesTrailing t \<Longrightarrow> t = [LF]"
proof (cases t)
  case Nil
  assume "matchesTrailing t" then show ?thesis using Nil by (simp add: matchesTrailing_def)
next
  case (Cons c u)
  assume a: "CR \<notin> set t" "noDoubleLF t" "matchesTrailing t"
  then have c: "c = LF" and u: "list_all (\<lambda>d. d = LF) u"
    using Cons by (auto simp: matchesTrailing_def split: if_splits)
  show ?thesis
  proof (cases u)
    case Nil then show ?thesis using Cons c by simp
  next
    case (Cons d v)
    then have "d = LF" using u by simp
    then show ?thesis using a(2) \<open>t = c # u\<close> Cons c by simp
  qed
qed

lemma noDoubleLF_append_right: "noDoubleLF (a @ b) \<Longrightarrow> noDoubleLF b"
proof (induction a)
  case Nil then show ?case by simp
next
  case (Cons c a)
  then show ?case by (cases "a @ b") auto
qed

lemma noDoubleLF_drop: "noDoubleLF s \<Longrightarrow> noDoubleLF (drop i s)"
  using noDoubleLF_append_right [of "take i s" "drop i s"] by simp

lemma replaceTrailing_id:
  assumes "CR \<notin> set s" "noDoubleLF s"
  shows "replaceTrailingNewlines s = s"
proof (cases "trailingNewlinesMatch s")
  case None
  then show ?thesis by (simp add: replaceTrailingNewlines_def)
next
  case (Some i)
  then have m: "matchesTrailing (drop i s)"
    by (auto simp: trailingNewlinesMatch_def find_Some_iff)
  have "CR \<notin> set (drop i s)" using assms(1) in_set_dropD by fastforce
  then have "drop i s = [LF]"
    using matchesTrailing_plain m noDoubleLF_drop [OF assms(2)] by blast
  then have "take i s @ [LF] = s" using append_take_drop_id [of i s] by simp
  then show ?thesis using Some by (simp add: replaceTrailingNewlines_def)
qed

lemma trailing_count_iff:
  "(getTrailingNewlinesCount s \<ge> 1) = (s \<noteq> [] \<and> last s = LF)"
proof (cases "trailingNewlinesMatch s")
  case None
  have "\<not> (s \<noteq> [] \<and> last s = LF)"
  proof
    assume a: "s \<noteq> [] \<and> last s = LF"
    then have "drop (length s - 1) s = [LF]"
      by (metis append_butlast_last_id append_eq_conv_conj length_butlast)
    moreover have "length s - 1 \<in> set [0..<length s]" using a by simp
    moreover have "\<forall>x\<in>set [0..<length s]. \<not> matchesTrailing (drop x s)"
      using None by (simp add: trailingNewlinesMatch_def find_None_iff del: set_upt)
    ultimately show False
      using matchesTrailing_single by metis
  qed
  then show ?thesis using None by (simp add: getTrailingNewlinesCount_def)
next
  case (Some i)
  then have m: "matchesTrailing (drop i s)" and i: "i < length s"
    by (auto simp: trailingNewlinesMatch_def find_Some_iff)
  have "last (drop i s) = last s" using i by simp
  then have "s \<noteq> [] \<and> last s = LF" using matchesTrailing_last [OF m] i by auto
  then show ?thesis using Some i by (simp add: getTrailingNewlinesCount_def)
qed

lemma trimEnd_id: "s = [] \<or> \<not> isWhiteSpace (last s) \<Longrightarrow> trimEnd s = s"
proof (cases s rule: rev_cases)
  case Nil
  then show ?thesis by (simp add: trimEnd_def)
next
  case (snoc ys y)
  assume "s = [] \<or> \<not> isWhiteSpace (last s)"
  then show ?thesis using snoc by (simp add: trimEnd_def)
qed

lemma trimEnd_prefix: "\<exists>r. s = trimEnd s @ r"
proof -
  have "rev s = takeWhile isWhiteSpace (rev s) @ dropWhile isWhiteSpace (rev s)" by simp
  then have "s = rev (dropWhile isWhiteSpace (rev s)) @ rev (takeWhile isWhiteSpace (rev s))"
    by (metis rev_append rev_rev_ident)
  then show ?thesis unfolding trimEnd_def by blast
qed

lemma trimEnd_last: "trimEnd s \<noteq> [] \<Longrightarrow> \<not> isWhiteSpace (last (trimEnd s))"
proof -
  assume a: "trimEnd s \<noteq> []"
  then have d: "dropWhile isWhiteSpace (rev s) \<noteq> []" by (simp add: trimEnd_def)
  then have "\<not> isWhiteSpace (hd (dropWhile isWhiteSpace (rev s)))" by (rule hd_dropWhile)
  then show ?thesis using d by (simp add: trimEnd_def last_rev)
qed

section \<open>Lines kept and characters of the output\<close>

lemma stripCR_id: "CR \<notin> set x \<Longrightarrow> stripCR x = x"
  by (induction x) (auto simp: stripCR_def)

lemma adjDedup_blank:
  "filter (\<lambda>l. stripCR l = []) (adjDedup ic p xs) = filter (\<lambda>l. stripCR l = []) xs"
  by (induction xs arbitrary: p) (auto simp: keepAfter_def)

lemma adjDedup_subset: "set (adjDedup ic p xs) \<subseteq> set xs"
  by (induction xs arbitrary: p) auto

lemma uniqueLines_subset: "set (uniqueLines s ic) \<subseteq> set (split_LF s)"
proof -
  obtain l ls where r: "split_LF s = l # ls"
    using split_LF_nonempty [of s] by (cases "split_LF s") auto
  show ?thesis using adjDedup_subset [of ic l ls] by (auto simp: uniqueLines_rec [OF r] r)
qed

lemma uniqueLines_blank:
  "filter (\<lambda>l. stripCR l = []) (uniqueLines s ic) = filter (\<lambda>l. stripCR l = []) (split_LF s)"
proof -
  obtain l ls where r: "split_LF s = l # ls"
    using split_LF_nonempty [of s] by (cases "split_LF s") auto
  show ?thesis by (simp add: uniqueLines_rec [OF r] r adjDedup_blank)
qed

lemma joined_chars: "set (join_LF (uniqueLines s ic)) \<subseteq> insert LF (set s)"
proof
  fix c assume "c \<in> set (join_LF (uniqueLines s ic))"
  then have "c = LF \<or> (\<exists>l\<in>set (uniqueLines s ic). c \<in> set l)"
    using join_LF_chars [of "uniqueLines s ic"] by auto
  then show "c \<in> insert LF (set s)"
    using uniqueLines_subset [of s ic] split_LF_chars [of _ s] by auto
qed

lemma processContent_noDoubleLF:
  assumes "CR \<notin> set s"
  shows "noDoubleLF (processContent s ic)"
proof -
  let ?j = "collapseNewlines (join_LF (uniqueLines s ic))"
  have cr: "CR \<notin> set ?j"
    using assms joined_chars [of s ic] collapse_chars [of "join_LF (uniqueLines s ic)"] by auto
  have nd: "noDoubleLF ?j" by (rule noDoubleLF_collapse)
  show ?thesis
  proof (cases "getTrailingNewlinesCount s \<ge> 1")
    case True
    then show ?thesis
      using nd replaceTrailing_id [OF cr nd]
      by (simp add: processContent_def updateTrailingNewlines_def Let_def)
  next
    case False
    obtain r where "?j = trimEnd ?j @ r" using trimEnd_prefix by blast
    then have "noDoubleLF (trimEnd ?j)" using nd noDoubleLF_append_left by metis
    then show ?thesis
      using False by (simp add: processContent_def updateTrailingNewlines_def Let_def)
  qed
qed

section \<open>Default Dedup on plain text\<close>

lemma isWhiteSpace_lowerChar: "isWhiteSpace (lowerChar c) = isWhiteSpace c"
proof -
  have n: "(of_char c :: nat) < 256" by simp
  show ?thesis
    using n unfolding lowerChar_def isWhiteSpace_def Let_def
    by auto
qed

lemma caseFold_last:
  assumes "caseFold ic a = caseFold ic b" "b \<noteq> []"
  shows "a \<noteq> [] \<and> isWhiteSpace (last a) = isWhiteSpace (last b)"
proof (cases ic)
  case False
  then show ?thesis using assms by (simp add: caseFold_def)
next
  case True
  then have m: "map lowerChar a = map lowerChar b"
    using assms by (simp add: caseFold_def toLowerCase_def)
  then have ne: "a \<noteq> []" using assms(2) by auto
  have "last (map lowerChar a) = last (map lowerChar b)" using m by simp
  then have "lowerChar (last a) = lowerChar (last b)"
    using ne assms(2) by (simp add: last_map)
  then show ?thesis using ne isWhiteSpace_lowerChar by metis
qed

lemma adjDedup_prev:
  "caseFold ic p = caseFold ic q \<Longrightarrow> adjDedup ic p xs = adjDedup ic q xs"
  by (cases xs) (auto simp: keepAfter_def)

lemma adjDedup_idem:
  "\<forall>x\<in>set xs. CR \<notin> set x \<Longrightarrow> adjDedup ic p (adjDedup ic p xs) = adjDedup ic p xs"
proof (induction xs arbitrary: p)
  case Nil
  show ?case by simp
next
  case (Cons x xs)
  have ih: "adjDedup ic x (adjDedup ic x xs) = adjDedup ic x xs"
    using Cons by simp
  show ?case
  proof (cases "keepAfter ic p x")
    case True
    then show ?thesis using ih by simp
  next
    case False
    have "stripCR x = x" using Cons.prems by (simp add: stripCR_id)
    then have "caseFold ic p = caseFold ic x"
      using False by (auto simp: keepAfter_def split: if_splits)
    then have "adjDedup ic p (adjDedup ic x xs) = adjDedup ic x (adjDedup ic x xs)"
      by (rule adjDedup_prev)
    then show ?thesis using False ih by simp
  qed
qed

lemma adjDedup_butlast: "set (butlast (adjDedup ic p xs)) \<subseteq> set (butlast xs)"
proof (induction xs arbitrary: p)
  case Nil
  show ?case by simp
next
  case (Cons x xs)
  show ?case
  proof (cases xs)
    case Nil
    then show ?thesis by simp
  next
    case (Cons y ys)
    then have ne: "xs \<noteq> []" by simp
    define r where "r = adjDedup ic x xs"
    have ih: "set (butlast r) \<subseteq> set (butlast xs)"
      unfolding r_def by (rule Cons.IH)
    have "set (butlast (x # r)) \<subseteq> insert x (set (butlast r))" by auto
    then have k1: "set (butlast (x # r)) \<subseteq> insert x (set (butlast xs))"
      using ih by blast
    have k2: "set (butlast r) \<subseteq> insert x (set (butlast xs))"
      using ih by blast
    have e: "set (butlast (x # xs)) = insert x (set (butlast xs))" using ne by simp
    show ?thesis
    proof (cases "keepAfter ic p x")
      case True
      then have "adjDedup ic p (x # xs) = x # r" by (simp add: r_def)
      then show ?thesis using k1 e by simp
    next
      case False
      then have "adjDedup ic p (x # xs) = r" by (simp add: r_def)
      then show ?thesis using k2 e by simp
    qed
  qed
qed

lemma adjDedup_last_blank:
  "xs \<noteq> [] \<Longrightarrow> stripCR (last xs) = [] \<Longrightarrow>
   adjDedup ic p xs \<noteq> [] \<and> last (adjDedup ic p xs) = last xs"
proof (induction xs arbitrary: p)
  case Nil
  then show ?case by simp
next
  case (Cons x xs)
  show ?case
  proof (cases xs)
    case Nil
    then show ?thesis using Cons.prems by (simp add: keepAfter_def)
  next
    case (Cons y ys)
    then have ne: "xs \<noteq> []" by simp
    define r where "r = adjDedup ic x xs"
    have "stripCR (last xs) = []" using Cons.prems(2) ne by simp
    then have r: "r \<noteq> [] \<and> last r = last xs"
      unfolding r_def using ne by (intro Cons.IH)
    have e: "last (x # xs) = last xs" using ne by simp
    show ?thesis
    proof (cases "keepAfter ic p x")
      case True
      then have "adjDedup ic p (x # xs) = x # r" by (simp add: r_def)
      then show ?thesis using r e by simp
    next
      case False
      then have "adjDedup ic p (x # xs) = r" by (simp add: r_def)
      then show ?thesis using r e by simp
    qed
  qed
qed

lemma adjDedup_last_fold:
  "\<forall>x\<in>set xs. CR \<notin> set x \<Longrightarrow>
   caseFold ic (last (p # adjDedup ic p xs)) = caseFold ic (last (p # xs))"
proof (induction xs arbitrary: p)
  case Nil
  show ?case by simp
next
  case (Cons x xs)
  have ih: "caseFold ic (last (x # adjDedup ic x xs)) = caseFold ic (last (x # xs))"
    using Cons by simp
  show ?case
  proof (cases "keepAfter ic p x")
    case True
    then show ?thesis using ih by simp
  next
    case False
    have "stripCR x = x" using Cons.prems by (simp add: stripCR_id)
    then have px: "caseFold ic p = caseFold ic x"
      using False by (auto simp: keepAfter_def split: if_splits)
    show ?thesis using False ih px by (cases "adjDedup ic x xs = []") auto
  qed
qed

lemma join_last_nonempty:
  "xs \<noteq> [] \<Longrightarrow> last xs \<noteq> [] \<Longrightarrow> join_LF xs \<noteq> [] \<and> last (join_LF xs) = last (last xs)"
  by (induction xs rule: join_LF.induct) auto

lemma join_last_blank:
  "length xs \<ge> 2 \<Longrightarrow> last xs = [] \<Longrightarrow> join_LF xs \<noteq> [] \<and> last (join_LF xs) = LF"
proof (induction xs rule: join_LF.induct)
  case 1 then show ?case by simp
next
  case (2 l) then show ?case by simp
next
  case (3 l m ls)
  then show ?case by (cases ls) auto
qed

lemma noDoubleLF_line: "LF \<notin> set l \<Longrightarrow> noDoubleLF (l @ t) = noDoubleLF t"
proof (induction l)
  case Nil show ?case by simp
next
  case (Cons c l)
  then show ?case by (cases "l @ t") auto
qed

lemma noDoubleLF_line_only: "LF \<notin> set l \<Longrightarrow> noDoubleLF l"
  using noDoubleLF_line [of l "[]"] by simp

lemma noDoubleLF_join:
  "\<forall>l\<in>set xs. LF \<notin> set l \<Longrightarrow> \<forall>l\<in>set (butlast (tl xs)). l \<noteq> [] \<Longrightarrow>
   noDoubleLF (join_LF xs)"
proof (induction xs rule: join_LF.induct)
  case 1 show ?case by simp
next
  case (2 l) then show ?case by (simp add: noDoubleLF_line_only)
next
  case (3 l m ls)
  have ih: "noDoubleLF (join_LF (m # ls))"
  proof (rule 3(1))
    show "\<forall>l\<in>set (m # ls). LF \<notin> set l" using 3(2) by simp
    show "\<forall>l\<in>set (butlast (tl (m # ls))). l \<noteq> []"
      using 3(3) by (cases ls) auto
  qed
  have "noDoubleLF (LF # join_LF (m # ls))"
  proof (cases "join_LF (m # ls)")
    case Nil then show ?thesis by simp
  next
    case (Cons c cs)
    have "c \<noteq> LF"
    proof (cases m)
      case Nil
      then have "ls = []" using 3(3) by (cases ls) auto
      then show ?thesis using Nil Cons by simp
    next
      case (Cons d ds)
      then have "c = d" using \<open>join_LF (m # ls) = c # cs\<close> by (cases ls) auto
      then show ?thesis using Cons 3(2) by auto
    qed
    then show ?thesis using ih Cons by simp
  qed
  then show ?case using 3(2) by (simp add: noDoubleLF_line)
qed

lemma noDoubleLF_split:
  "noDoubleLF s \<Longrightarrow> \<forall>l\<in>set (butlast (tl (split_LF s))). l \<noteq> []"
proof (induction s)
  case Nil
  show ?case by simp
next
  case (Cons c cs)
  obtain h t where r: "split_LF cs = h # t"
    using split_LF_nonempty [of cs] by (cases "split_LF cs") auto
  have nd: "noDoubleLF cs" using Cons.prems by (cases cs) auto
  have ih: "\<forall>l\<in>set (butlast t). l \<noteq> []" using Cons.IH [OF nd] r by simp
  show ?case
  proof (cases "c = LF")
    case False
    then show ?thesis using ih r by (simp add: Let_def)
  next
    case True
    show ?thesis
    proof (cases cs)
      case Nil
      then show ?thesis using True by simp
    next
      case (Cons d ds)
      then have "d \<noteq> LF" using True Cons.prems by simp
      then have "h \<noteq> []" using r Cons by (auto simp: Let_def)
      then show ?thesis using True ih r by (cases t) auto
    qed
  qed
qed

lemma plainText_iff:
  "plainText s =
     (CR \<notin> set s \<and> noDoubleLF s \<and> (s = [] \<or> last s = LF \<or> \<not> isWhiteSpace (last s)))"
  by (auto simp: plainText_def)

lemma isWhiteSpace_LF: "isWhiteSpace LF"
  by (simp add: isWhiteSpace_def)

lemma updateTrailing_plain:
  assumes "plainText t" "(c \<ge> 1) = (t \<noteq> [] \<and> last t = LF)"
  shows "updateTrailingNewlines t c = t"
proof -
  have cr: "CR \<notin> set t" and nd: "noDoubleLF t"
    and e: "t = [] \<or> last t = LF \<or> \<not> isWhiteSpace (last t)"
    using assms(1) by (simp_all add: plainText_iff)
  have col: "collapseNewlines t = t" using nd by (rule collapse_id)
  show ?thesis
  proof (cases "c \<ge> 1")
    case True
    then show ?thesis
      using col replaceTrailing_id [OF cr nd] by (simp add: updateTrailingNewlines_def)
  next
    case False
    then have "t = [] \<or> \<not> isWhiteSpace (last t)" using e assms(2) by auto
    then have "trimEnd t = t" by (rule trimEnd_id)
    then show ?thesis using col False by (simp add: updateTrailingNewlines_def)
  qed
qed

lemma kept_ends_LF:
  assumes r: "split_LF s = l # ls" and e: "s \<noteq> [] \<and> last s = LF"
  shows "join_LF (l # adjDedup ic l ls) \<noteq> []
         \<and> last (join_LF (l # adjDedup ic l ls)) = LF"
proof -
  let ?k = "l # adjDedup ic l ls"
  have s: "s = join_LF (l # ls)" using join_split [of s] r by simp
  have lf: "\<forall>x\<in>set (l # ls). LF \<notin> set x" using split_LF_free [of _ s] r by auto
  have lastl: "last (l # ls) = []"
  proof (rule ccontr)
    assume a: "last (l # ls) \<noteq> []"
    then have "last s = last (last (l # ls))"
      using join_last_nonempty [of "l # ls"] s by simp
    then have "LF \<in> set (last (l # ls))" using e a last_in_set by metis
    then show False using lf by (metis last_in_set list.distinct(1))
  qed
  have ne: "ls \<noteq> []"
  proof
    assume "ls = []"
    then show False using lastl s e by simp
  qed
  then have "stripCR (last ls) = []" using lastl by (simp add: stripCR_def)
  then have a: "adjDedup ic l ls \<noteq> [] \<and> last (adjDedup ic l ls) = last ls"
    using ne adjDedup_last_blank by blast
  then have "length ?k \<ge> 2 \<and> last ?k = []"
    using lastl ne by (cases "adjDedup ic l ls") auto
  then show ?thesis using join_last_blank by blast
qed

lemma kept_plain:
  assumes p: "plainText s" and r: "split_LF s = l # ls"
  shows "plainText (join_LF (l # adjDedup ic l ls))
         \<and> ((join_LF (l # adjDedup ic l ls) \<noteq> [] \<and> last (join_LF (l # adjDedup ic l ls)) = LF)
            = (s \<noteq> [] \<and> last s = LF))"
proof -
  let ?k = "l # adjDedup ic l ls"
  let ?t = "join_LF ?k"
  have cr: "CR \<notin> set s" and nd: "noDoubleLF s"
    and e: "s = [] \<or> last s = LF \<or> \<not> isWhiteSpace (last s)"
    using p by (simp_all add: plainText_iff)
  have s: "s = join_LF (l # ls)" using join_split [of s] r by simp
  have lf: "\<forall>x\<in>set (l # ls). LF \<notin> set x" using split_LF_free [of _ s] r by auto
  have crl: "\<forall>x\<in>set (l # ls). CR \<notin> set x" using split_LF_chars [of _ s] r cr by auto
  have sub: "set ?k \<subseteq> set (l # ls)" using adjDedup_subset [of ic l ls] by auto
  have lfk: "\<forall>x\<in>set ?k. LF \<notin> set x" using lf sub by blast
  have crt: "CR \<notin> set ?t"
    using join_LF_chars [of ?k] crl sub by fastforce
  have "\<forall>x\<in>set (butlast ls). x \<noteq> []" using noDoubleLF_split [OF nd] r by simp
  then have "\<forall>x\<in>set (butlast (tl ?k)). x \<noteq> []"
    using adjDedup_butlast [of ic l ls] by auto
  then have ndt: "noDoubleLF ?t" using lfk noDoubleLF_join by blast
  have ends: "(?t = [] \<or> last ?t = LF \<or> \<not> isWhiteSpace (last ?t))
              \<and> ((?t \<noteq> [] \<and> last ?t = LF) = (s \<noteq> [] \<and> last s = LF))"
  proof (cases "s \<noteq> [] \<and> last s = LF")
    case True
    then have "?t \<noteq> [] \<and> last ?t = LF" using kept_ends_LF [OF r] by blast
    then show ?thesis using True by simp
  next
    case False
    show ?thesis
    proof (cases "s = []")
      case True
      then have "l # ls = [[]]" using r by simp
      then show ?thesis using True by simp
    next
      case ne: False
      then have nws: "\<not> isWhiteSpace (last s)" and nlf: "last s \<noteq> LF"
        using e False by auto
      have lastl: "last (l # ls) \<noteq> []"
      proof
        assume a: "last (l # ls) = []"
        show False
        proof (cases ls)
          case Nil
          then show ?thesis using a s ne by simp
        next
          case (Cons y ys)
          then have "length (l # ls) \<ge> 2" by simp
          then show ?thesis using join_last_blank [of "l # ls"] a s nlf by simp
        qed
      qed
      then have ls: "last s = last (last (l # ls))"
        using join_last_nonempty [of "l # ls"] s by simp
      have "caseFold ic (last ?k) = caseFold ic (last (l # ls))"
        using adjDedup_last_fold [of ls ic l] crl by simp
      then have k: "last ?k \<noteq> [] \<and> isWhiteSpace (last (last ?k)) = isWhiteSpace (last (last (l # ls)))"
        using caseFold_last lastl by blast
      then have "?t \<noteq> [] \<and> last ?t = last (last ?k)"
        using join_last_nonempty [of ?k] by simp
      then have "\<not> isWhiteSpace (last ?t)" using k ls nws by simp
      then show ?thesis using False isWhiteSpace_LF by auto
    qed
  qed
  show ?thesis using crt ndt ends by (simp add: plainText_iff)
qed

lemma processContent_plain:
  assumes "plainText s"
  shows "processContent s ic = join_LF (uniqueLines s ic) \<and> plainText (processContent s ic)"
proof -
  obtain l ls where r: "split_LF s = l # ls"
    using split_LF_nonempty [of s] by (cases "split_LF s") auto
  let ?t = "join_LF (l # adjDedup ic l ls)"
  have k: "plainText ?t" and e: "(?t \<noteq> [] \<and> last ?t = LF) = (s \<noteq> [] \<and> last s = LF)"
    using kept_plain [OF assms r, of ic] by simp_all
  have "(getTrailingNewlinesCount s \<ge> 1) = (?t \<noteq> [] \<and> last ?t = LF)"
    using e trailing_count_iff [of s] by simp
  then have "updateTrailingNewlines ?t (getTrailingNewlinesCount s) = ?t"
    using updateTrailing_plain [OF k] by blast
  then have "processContent s ic = ?t"
    by (simp add: processContent_def uniqueLines_rec [OF r] Let_def)
  then show ?thesis using k by (simp add: uniqueLines_rec [OF r])
qed

lemma uniqueLines_stable:
  assumes "CR \<notin> set s"
  shows "uniqueLines (join_LF (uniqueLines s ic)) ic = uniqueLines s ic"
proof -
  obtain l ls where r: "split_LF s = l # ls"
    using split_LF_nonempty [of s] by (cases "split_LF s") auto
  let ?k = "l # adjDedup ic l ls"
  have lf: "\<forall>x\<in>set (l # ls). LF \<notin> set x" using split_LF_free [of _ s] r by auto
  have crl: "\<forall>x\<in>set ls. CR \<notin> set x" using split_LF_chars [of _ s] r assms by auto
  have sub: "set ?k \<subseteq> set (l # ls)" using adjDedup_subset [of ic l ls] by auto
  have "\<forall>x\<in>set ?k. LF \<notin> set x" using lf sub by blast
  then have "split_LF (join_LF ?k) = ?k" by (intro split_join) simp_all
  then have "uniqueLines (join_LF ?k) ic = l # adjDedup ic l (adjDedup ic l ls)"
    by (rule uniqueLines_rec)
  then show ?thesis using adjDedup_idem [OF crl] by (simp add: uniqueLines_rec [OF r])
qed

lemma collapse_last:
  "t \<noteq> [] \<Longrightarrow> collapseNewlines t \<noteq> [] \<and> last (collapseNewlines t) = last t"
proof (induction t rule: collapseNewlines.induct)
  case 1 then show ?case by simp
next
  case (2 c) show ?case by simp
next
  case (3 c d cs)
  obtain es where e: "collapseNewlines (d # cs) = d # es"
    using collapse_head [of d cs] by blast
  then show ?case using 3 by auto
qed

lemma noDoubleLF_end: "noDoubleLF (u @ [LF]) \<Longrightarrow> u = [] \<or> last u \<noteq> LF"
proof (cases u rule: rev_cases)
  case Nil then show ?thesis by simp
next
  case (snoc v c)
  assume "noDoubleLF (u @ [LF])"
  then have "noDoubleLF (v @ [c, LF])" using snoc by simp
  then have "noDoubleLF [c, LF]" by (rule noDoubleLF_append_right)
  then show ?thesis using snoc by simp
qed

lemma processContent_one_trailing_newline:
  assumes cr: "CR \<notin> set s" and e: "s \<noteq> [] \<and> last s = LF"
  shows "\<exists>u. processContent s ic = u @ [LF] \<and> (u = [] \<or> last u \<noteq> LF)"
proof -
  obtain l ls where r: "split_LF s = l # ls"
    using split_LF_nonempty [of s] by (cases "split_LF s") auto
  let ?t = "join_LF (uniqueLines s ic)"
  let ?c = "collapseNewlines ?t"
  have t: "?t \<noteq> [] \<and> last ?t = LF"
    using kept_ends_LF [OF r e, of ic] by (simp add: uniqueLines_rec [OF r])
  then have c: "?c \<noteq> [] \<and> last ?c = LF" using collapse_last [of ?t] by simp
  have crc: "CR \<notin> set ?c"
    using cr joined_chars [of s ic] collapse_chars [of ?t] by auto
  have nd: "noDoubleLF ?c" by (rule noDoubleLF_collapse)
  have "getTrailingNewlinesCount s \<ge> 1" using e trailing_count_iff by blast
  then have p: "processContent s ic = ?c"
    using replaceTrailing_id [OF crc nd]
    by (simp add: processContent_def updateTrailingNewlines_def Let_def)
  have "?c = butlast ?c @ [LF]" using c append_butlast_last_id [of ?c] by simp
  moreover from this have "butlast ?c = [] \<or> last (butlast ?c) \<noteq> LF"
    using nd noDoubleLF_end [of "butlast ?c"] by simp
  ultimately show ?thesis using p by metis
qed

lemma processContent_no_trailing_whitespace:
  assumes "\<not> (s \<noteq> [] \<and> last s = LF)"
  shows "processContent s ic = [] \<or> \<not> isWhiteSpace (last (processContent s ic))"
proof -
  have "\<not> getTrailingNewlinesCount s \<ge> 1" using assms trailing_count_iff by blast
  then have "processContent s ic = trimEnd (collapseNewlines (join_LF (uniqueLines s ic)))"
    by (simp add: processContent_def updateTrailingNewlines_def Let_def)
  then show ?thesis using trimEnd_last by metis
qed

section \<open>The exact table without inherited names\<close>

lemma arrayFromSet_snoc:
  "arrayFromSet (xs @ [x])
     = (if x \<in> set (arrayFromSet xs) then arrayFromSet xs else arrayFromSet xs @ [x])"
  by (simp add: arrayFromSet_def)

lemma arrayFromSet_set: "set (arrayFromSet xs) = set xs"
  by (induction xs rule: rev_induct) (auto simp: arrayFromSet_snoc, simp add: arrayFromSet_def)

lemma arrayFromSet_first_occurrences: "arrayFromSet xs = rev (remdups (rev xs))"
proof (induction xs rule: rev_induct)
  case Nil
  show ?case by (simp add: arrayFromSet_def)
next
  case (snoc x xs)
  then show ?case by (simp add: arrayFromSet_snoc arrayFromSet_set)
qed

lemma getProp_plain_key:
  "key \<notin> set inheritedNames \<Longrightarrow>
   getProp obj key = (case map_of obj key of Some v \<Rightarrow> v | None \<Rightarrow> Undefined)"
  by (simp add: getProp_def)

lemma proto_inherited: "''__proto__'' \<in> set inheritedNames"
  by (simp add: inheritedNames_def)

lemma exact_table_counts:
  assumes "\<forall>l. map_of T l = (if l \<in> set seen then Some (Num (count_list seen l)) else None)"
    and "\<forall>y\<in>set ys. y \<notin> set inheritedNames"
  shows "\<forall>l. map_of
               (fold (\<lambda>line linesCount.
                        let old = getProp linesCount line
                        in setProp linesCount line (plusOne (if truthy old then old else Num 0)))
                  ys T) l
             = (if l \<in> set (seen @ ys) then Some (Num (count_list (seen @ ys) l)) else None)"
  using assms
proof (induction ys arbitrary: T seen)
  case Nil
  then show ?case by simp
next
  case (Cons y ys)
  let ?T' = "setProp T y (plusOne (if truthy (getProp T y) then getProp T y else Num 0))"
  have ny: "y \<notin> set inheritedNames" using Cons.prems(2) by simp
  then have np: "y \<noteq> ''__proto__''" using proto_inherited by auto
  have g: "getProp T y = (if y \<in> set seen then Num (count_list seen y) else Undefined)"
    using Cons.prems(1) by (simp add: getProp_plain_key [OF ny])
  have pos: "y \<in> set seen \<Longrightarrow> count_list seen y \<noteq> 0"
    by (simp add: count_list_0_iff)
  have v: "plusOne (if truthy (getProp T y) then getProp T y else Num 0)
           = Num (count_list (seen @ [y]) y)"
    using g pos by (auto simp: truthy_def plusOne_def count_list_0_iff)
  have inv: "\<forall>l. map_of ?T' l
               = (if l \<in> set (seen @ [y]) then Some (Num (count_list (seen @ [y]) l)) else None)"
    using Cons.prems(1) v np by (auto simp: setProp_def update_conv')
  have "\<forall>l. map_of
               (fold (\<lambda>line linesCount.
                        let old = getProp linesCount line
                        in setProp linesCount line (plusOne (if truthy old then old else Num 0)))
                  ys ?T') l
             = (if l \<in> set ((seen @ [y]) @ ys)
                then Some (Num (count_list ((seen @ [y]) @ ys) l)) else None)"
    using Cons.IH [OF inv] Cons.prems(2) by simp
  then show ?case by (simp add: Let_def)
qed

lemma exact_table_lookup:
  assumes "\<forall>y\<in>set (split_LF raw). y \<notin> set inheritedNames"
    and "l \<in> set (split_LF raw)"
  shows "getProp (buildLinesCount raw False) l = Num (count_list (split_LF raw) l)"
proof -
  have "\<forall>l. map_of ([] :: LineCount) l
          = (if l \<in> set [] then Some (Num (count_list [] l)) else None)"
    by simp
  then have "\<forall>l. map_of (buildCaseSensitiveLineCount raw) l
               = (if l \<in> set ([] @ split_LF raw)
                  then Some (Num (count_list ([] @ split_LF raw) l)) else None)"
    unfolding buildCaseSensitiveLineCount_def using assms(1) by (rule exact_table_counts)
  then show ?thesis
    using assms by (simp add: buildLinesCount_def getProp_plain_key)
qed

lemma repeated_lines_without_inherited_names:
  assumes "\<forall>y\<in>set (split_LF raw). y \<notin> set inheritedNames"
  shows "arrayFromSet
           (filter (\<lambda>line. greaterThanOne (getProp (buildLinesCount raw False) line))
              (split_LF raw))
         = rev (remdups (rev (filter (\<lambda>line. count_list (split_LF raw) line > 1)
                                (split_LF raw))))"
proof -
  have "filter (\<lambda>line. greaterThanOne (getProp (buildLinesCount raw False) line)) (split_LF raw)
        = filter (\<lambda>line. count_list (split_LF raw) line > 1) (split_LF raw)"
    by (rule filter_cong) (simp_all add: exact_table_lookup [OF assms] greaterThanOne_def)
  then show ?thesis by (simp add: arrayFromSet_first_occurrences)
qed

section \<open>Absent content\<close>

lemma getRawContent_no_content:
  "\<not> given c \<Longrightarrow>
   getRawContent w path c = (if accessible w path then readFile w path else ret [])"
  by (simp add: getRawContent_def Let_def)

lemma readFile_errors: "snd (readFile w path) \<noteq> Inl ConflictingInputs"
  by (auto simp: readFile_def throw_def ret_def split: option.splits node.splits)

lemma readFile_cases:
  "(\<exists>c. readFile w path = ([], Inr c)) \<or> (\<exists>e. readFile w path = ([], Inl e))"
  by (auto simp: readFile_def throw_def ret_def split: option.splits node.splits)

lemma writeToOutputFile_errors: "snd (writeToOutputFile w p t) \<noteq> Inl ConflictingInputs"
  by (auto simp: writeToOutputFile_def andThen_def throw_def ret_def Let_def split: option.splits)

lemma andThen_errors:
  "snd m \<noteq> Inl e \<Longrightarrow> (\<And>x. snd (f x) \<noteq> Inl e) \<Longrightarrow> snd (andThen m f) \<noteq> Inl e"
proof -
  assume m: "snd m \<noteq> Inl e" and f: "\<And>x. snd (f x) \<noteq> Inl e"
  obtain ws r where p: "m = (ws, r)" by (cases m)
  show ?thesis
  proof (cases r)
    case (Inl e')
    then show ?thesis using m p by (simp add: andThen_def)
  next
    case (Inr x)
    obtain ws' r' where q: "f x = (ws', r')" by (cases "f x")
    then have "r' \<noteq> Inl e" using f [of x] by simp
    then show ?thesis using p Inr q by (simp add: andThen_def)
  qed
qed

lemma ret_errors: "snd (ret x) \<noteq> Inl e"
  by (simp add: ret_def)

lemma getRawContent_errors:
  "\<not> given c \<Longrightarrow> snd (getRawContent w path c) \<noteq> Inl ConflictingInputs"
  by (simp add: getRawContent_no_content readFile_errors ret_errors)

lemma processRepeatedLines_errors:
  "\<not> given c \<Longrightarrow> snd (processRepeatedLines w path c cnt ic) \<noteq> Inl ConflictingInputs"
  unfolding processRepeatedLines_def
  by (intro andThen_errors getRawContent_errors) (auto simp: Let_def ret_errors)

lemma assertFileExists_errors: "snd (assertFileExists w path) \<noteq> Inl ConflictingInputs"
  by (simp add: assertFileExists_def ret_def throw_def)

lemma zuniq_no_content_errors:
  assumes "\<not> given (content opts)"
  shows "snd (zuniq w opts) \<noteq> Inl ConflictingInputs"
proof -
  have g: "\<And>out. snd (if count opts
                 then andThen (getRawContent w (filePath opts) (content opts))
                        (\<lambda>rawContent.
                           let linesCount = buildLinesCount rawContent False
                           in ret (getOutputWithCount out linesCount (count opts)))
                 else ret out) \<noteq> Inl ConflictingInputs"
  proof -
    fix out
    have "snd (andThen (getRawContent w (filePath opts) (content opts))
                 (\<lambda>rawContent.
                    let linesCount = buildLinesCount rawContent False
                    in ret (getOutputWithCount out linesCount (count opts))))
          \<noteq> Inl ConflictingInputs"
      by (rule andThen_errors) (simp_all add: getRawContent_errors [OF assms] ret_errors Let_def)
    then show "snd (if count opts
                 then andThen (getRawContent w (filePath opts) (content opts))
                        (\<lambda>rawContent.
                           let linesCount = buildLinesCount rawContent False
                           in ret (getOutputWithCount out linesCount (count opts)))
                 else ret out) \<noteq> Inl ConflictingInputs"
      by (cases "count opts") (simp_all add: ret_errors)
  qed
  have h: "\<And>out'. snd (if \<not> given (outputPath opts) then ret (out', w)
                     else andThen (writeToOutputFile w (the (outputPath opts)) out')
                            (\<lambda>w'. ret (out', w'))) \<noteq> Inl ConflictingInputs"
  proof -
    fix out'
    have "snd (andThen (writeToOutputFile w (the (outputPath opts)) out')
                 (\<lambda>w'. ret (out', w'))) \<noteq> Inl ConflictingInputs"
      by (rule andThen_errors) (simp_all add: writeToOutputFile_errors ret_errors)
    then show "snd (if \<not> given (outputPath opts) then ret (out', w)
                     else andThen (writeToOutputFile w (the (outputPath opts)) out')
                            (\<lambda>w'. ret (out', w'))) \<noteq> Inl ConflictingInputs"
      by (simp add: ret_errors)
  qed
  have tail: "\<And>out. snd (andThen
             (if count opts
              then andThen (getRawContent w (filePath opts) (content opts))
                     (\<lambda>rawContent.
                        let linesCount = buildLinesCount rawContent False
                        in ret (getOutputWithCount out linesCount (count opts)))
              else ret out)
             (\<lambda>out'.
                if \<not> given (outputPath opts) then ret (out', w)
                else andThen (writeToOutputFile w (the (outputPath opts)) out')
                       (\<lambda>w'. ret (out', w')))) \<noteq> Inl ConflictingInputs"
    by (rule andThen_errors) (rule g, rule h)
  have first: "snd (andThen (assertFileExists w (filePath opts))
                 (\<lambda>_. andThen (readFile w (filePath opts))
                        (\<lambda>fileContent. ret (processContent fileContent (ignoreCase opts)))))
               \<noteq> Inl ConflictingInputs"
    by (intro andThen_errors assertFileExists_errors readFile_errors ret_errors)
  show ?thesis
  proof (cases "repeated opts \<and> unique opts")
    case True
    then show ?thesis by (simp add: zuniq_def andThen_def warn_def ret_def)
  next
    case False
    show ?thesis
    proof (cases "repeated opts")
      case True
      have "snd (andThen
                   (processRepeatedLines w (filePath opts) (content opts) (count opts)
                      (ignoreCase opts))
                   (\<lambda>out. ret (out, w))) \<noteq> Inl ConflictingInputs"
        by (intro andThen_errors processRepeatedLines_errors assms ret_errors)
      then show ?thesis using True False by (simp add: zuniq_def)
    next
      case nr: False
      have "snd (andThen
                   (andThen (assertFileExists w (filePath opts))
                      (\<lambda>_. andThen (readFile w (filePath opts))
                             (\<lambda>fileContent.
                                ret (processContent fileContent (ignoreCase opts)))))
                   (\<lambda>out.
                      andThen
                        (if count opts
                         then andThen (getRawContent w (filePath opts) (content opts))
                                (\<lambda>rawContent.
                                   let linesCount = buildLinesCount rawContent False
                                   in ret (getOutputWithCount out linesCount (count opts)))
                         else ret out)
                        (\<lambda>out'.
                           if \<not> given (outputPath opts) then ret (out', w)
                           else andThen (writeToOutputFile w (the (outputPath opts)) out')
                                  (\<lambda>w'. ret (out', w'))))) \<noteq> Inl ConflictingInputs"
        by (rule andThen_errors) (rule first, rule tail)
      then show ?thesis using nr assms by (simp add: zuniq_def)
    qed
  qed
qed

section \<open>The scenarios of the specification\<close>

text \<open>Scenarios A, C and D run \<open>processContent\<close>; B and E run \<open>zuniq\<close> with no file.\<close>

lemma scenario_A:
  "processContent (''a'' @ [LF] @ ''a'' @ [LF] @ ''b'' @ [LF]) False = ''a'' @ [LF] @ ''b'' @ [LF]"
  by code_simp

lemma scenario_C:
  "processContent (''A'' @ [LF] @ ''a'' @ [LF] @ ''B'' @ [LF]) True = ''A'' @ [LF] @ ''B'' @ [LF]"
  by code_simp

lemma scenario_D:
  "processContent (''x'' @ [LF] @ ''y'' @ [LF] @ ''x'' @ [LF]) False
     = ''x'' @ [LF] @ ''y'' @ [LF] @ ''x'' @ [LF]"
  by code_simp

lemma scenario_B:
  "zuniq emptyWorld
     (noOptions\<lparr>content := Some (''a'' @ [LF] @ ''a'' @ [LF] @ ''b'' @ [LF] @ ''b'' @ [LF] @ ''b'' @ [LF]),
        repeated := True\<rparr>)
   = ([InvalidPathUsingContent ''undefined''], Inr (''a'' @ [LF] @ ''b'', emptyWorld))"
  by code_simp

lemma scenario_E:
  "zuniq emptyWorld
     (noOptions\<lparr>filePath := Some ''missing.txt'', content := Some (''z'' @ [LF])\<rparr>)
   = ([InvalidPathUsingContent ''missing.txt''], Inr (''z'' @ [LF], emptyWorld))"
  by code_simp

section \<open>Mode conflict\<close>

text \<open>
  C9. When \<open>repeated\<close> and \<open>unique\<close> are both set, whatever the other options and the file
  system are, the call warns once, returns \<open>out = ""\<close>, raises nothing and leaves every
  file as it was.
\<close>

theorem zuniq_repeated_and_unique:
  "repeated opts \<and> unique opts \<Longrightarrow> zuniq w opts = ([RepeatedAndUnique], Inr ([], w))"
  by (simp add: zuniq_def andThen_def warn_def ret_def)

theorem zuniq_repeated_and_unique_witness:
  "repeated (noOptions\<lparr>content := Some ''a'', repeated := True, unique := True\<rparr>)
   \<and> unique (noOptions\<lparr>content := Some ''a'', repeated := True, unique := True\<rparr>)
   \<and> zuniq emptyWorld (noOptions\<lparr>content := Some ''a'', repeated := True, unique := True\<rparr>)
       = ([RepeatedAndUnique], Inr ([], emptyWorld))"
  using zuniq_repeated_and_unique
          [of "noOptions\<lparr>content := Some ''a'', repeated := True, unique := True\<rparr>" emptyWorld]
  by simp

section \<open>Empty content\<close>

text \<open>
  C10. At the public interface \<open>content = ""\<close> is treated as absent content: in every mode
  the call gives the result that absent content gives, and never raises the error of
  conflicting inputs. In the default mode (\<open>repeated\<close> not set), whatever the other options
  are: when \<open>filePath\<close> is absent, empty or not there, the call fails with the invalid-path
  error that names it (\<open>undefined\<close> when it is absent) instead of returning \<open>out = ""\<close>;
  when \<open>filePath\<close> exists the file is read, and its text is deduplicated, counted when
  \<open>count\<close> is set and written when \<open>outputPath\<close> is given.
\<close>

theorem empty_content_is_absent:
  "zuniq w (opts\<lparr>content := Some []\<rparr>) = zuniq w (opts\<lparr>content := None\<rparr>)
   \<and> snd (zuniq w (opts\<lparr>content := Some []\<rparr>)) \<noteq> Inl ConflictingInputs
   \<and> (\<not> repeated opts \<longrightarrow>
        zuniq w (opts\<lparr>content := Some []\<rparr>)
          = (if \<not> accessible w (filePath opts)
             then ([], Inl (InvalidPath (pathText (filePath opts))))
             else andThen (readFile w (filePath opts))
                    (\<lambda>fileContent.
                       let out = processContent fileContent (ignoreCase opts);
                           out' = (if count opts
                                   then getOutputWithCount out
                                          (buildLinesCount fileContent False) True
                                   else out)
                       in if \<not> given (outputPath opts) then ret (out', w)
                          else andThen (writeToOutputFile w (the (outputPath opts)) out')
                                 (\<lambda>w'. ret (out', w')))))"
proof (intro conjI impI)
  show "zuniq w (opts\<lparr>content := Some []\<rparr>) = zuniq w (opts\<lparr>content := None\<rparr>)"
    by (simp add: zuniq_def processRepeatedLines_def getRawContent_no_content given_def
          cong del: if_weak_cong)
  show "snd (zuniq w (opts\<lparr>content := Some []\<rparr>)) \<noteq> Inl ConflictingInputs"
    by (rule zuniq_no_content_errors) (simp add: given_def)
next
  assume a: "\<not> repeated opts"
  let ?rhs = "\<lambda>fileContent.
                let out = processContent fileContent (ignoreCase opts);
                    out' = (if count opts
                            then getOutputWithCount out (buildLinesCount fileContent False) True
                            else out)
                in if \<not> given (outputPath opts) then ret (out', w)
                   else andThen (writeToOutputFile w (the (outputPath opts)) out')
                          (\<lambda>w'. ret (out', w'))"
  show "zuniq w (opts\<lparr>content := Some []\<rparr>)
          = (if \<not> accessible w (filePath opts)
             then ([], Inl (InvalidPath (pathText (filePath opts))))
             else andThen (readFile w (filePath opts)) ?rhs)"
  proof (cases "accessible w (filePath opts)")
    case False
    then show ?thesis
      using a by (simp add: zuniq_def given_def assertFileExists_def andThen_def throw_def)
  next
    case True
    from readFile_cases [of w "filePath opts"] show ?thesis
    proof (elim disjE exE)
      fix c assume r: "readFile w (filePath opts) = ([], Inr c)"
      show ?thesis
        using a True r
        by (cases "writeToOutputFile w (the (outputPath opts))
                     (getOutputWithCount (processContent c (ignoreCase opts))
                        (buildLinesCount c False) True)";
            cases "writeToOutputFile w (the (outputPath opts))
                     (processContent c (ignoreCase opts))")
           (auto simp: zuniq_def given_def assertFileExists_def getRawContent_no_content
              andThen_def ret_def Let_def split: sum.splits)
    next
      fix e assume r: "readFile w (filePath opts) = ([], Inl e)"
      show ?thesis
        using a True r
        by (simp add: zuniq_def given_def assertFileExists_def andThen_def ret_def)
    qed
  qed
qed

theorem empty_content_is_absent_witness:
  "(\<not> repeated noOptions
    \<and> zuniq emptyWorld (noOptions\<lparr>content := Some []\<rparr>)
        = ([], Inl (InvalidPath ''undefined'')))
   \<and> (\<not> repeated (noOptions\<lparr>filePath := Some ''in.txt''\<rparr>)
      \<and> zuniq \<lparr>entries = [(''in.txt'', File (''a'' @ [LF] @ ''a'' @ [LF]))], unwritable = []\<rparr>
            (noOptions\<lparr>filePath := Some ''in.txt'', content := Some []\<rparr>)
          = ([], Inr (processContent (''a'' @ [LF] @ ''a'' @ [LF]) False,
                      \<lparr>entries = [(''in.txt'', File (''a'' @ [LF] @ ''a'' @ [LF]))],
                         unwritable = []\<rparr>)))"
proof
  show "\<not> repeated noOptions
        \<and> zuniq emptyWorld (noOptions\<lparr>content := Some []\<rparr>)
            = ([], Inl (InvalidPath ''undefined''))"
    using empty_content_is_absent [of emptyWorld noOptions, THEN conjunct2, THEN conjunct2]
    by (simp add: noOptions_def emptyWorld_def accessible_def pathText_def)
  show "\<not> repeated (noOptions\<lparr>filePath := Some ''in.txt''\<rparr>)
        \<and> zuniq \<lparr>entries = [(''in.txt'', File (''a'' @ [LF] @ ''a'' @ [LF]))], unwritable = []\<rparr>
              (noOptions\<lparr>filePath := Some ''in.txt'', content := Some []\<rparr>)
            = ([], Inr (processContent (''a'' @ [LF] @ ''a'' @ [LF]) False,
                        \<lparr>entries = [(''in.txt'', File (''a'' @ [LF] @ ''a'' @ [LF]))],
                           unwritable = []\<rparr>))"
    using empty_content_is_absent
            [of "\<lparr>entries = [(''in.txt'', File (''a'' @ [LF] @ ''a'' @ [LF]))], unwritable = []\<rparr>"
                "noOptions\<lparr>filePath := Some ''in.txt''\<rparr>",
             THEN conjunct2, THEN conjunct2]
    by (simp add: noOptions_def given_def accessible_def readFile_def andThen_def ret_def)
qed

text \<open>
  A path that exists and cannot be read (a directory) fails in the read, with a system
  error. With \<open>repeated\<close> set the call with \<open>content = ""\<close> and no \<open>filePath\<close> returns
  \<open>out = ""\<close>: the repeated mode resolves its input through \<open>getRawContent\<close>, which has no
  branch for this case (see C6).
\<close>

lemma empty_content_directory:
  "zuniq \<lparr>entries = [(''dir'', Directory)], unwritable = []\<rparr>
     (noOptions\<lparr>filePath := Some ''dir'', content := Some []\<rparr>)
   = ([], Inl (SystemError ''dir''))"
  by code_simp

lemma empty_content_repeated_mode:
  "zuniq emptyWorld (noOptions\<lparr>content := Some [], repeated := True\<rparr>)
     = ([], Inr ([], emptyWorld))"
  by code_simp

section \<open>Input resolution\<close>

text \<open>
  C6. Input resolution should fail with an invalid-path error when neither a readable
  file nor content is there. \<open>getRawContent\<close>, which resolves the input of the repeated
  mode, has no branch for that case and returns the empty text: with a missing file, no
  content and \<open>repeated\<close> set the call succeeds with \<open>out = ""\<close>.
\<close>

theorem repeated_mode_without_input:
  "zuniq emptyWorld (noOptions\<lparr>filePath := Some ''missing.txt'', repeated := True\<rparr>)
     = ([], Inr ([], emptyWorld))"
  by code_simp

section \<open>The keep rule and carriage returns\<close>

text \<open>
  C4. The keep rule should compare the forms without carriage return of a line and of
  the line before it. The filter strips the current line only: on \<open>"a\r\na\r\n"\<close> the
  second line \<open>a\r\<close> is compared as \<open>a\<close> with the unstripped \<open>a\r\<close>, differs, and is kept.
\<close>

theorem keep_rule_strips_current_line_only:
  "uniqueLines (''a'' @ [CR, LF] @ ''a'' @ [CR, LF]) False = [''a'' @ [CR], ''a'' @ [CR], []]
   \<and> processContent (''a'' @ [CR, LF] @ ''a'' @ [CR, LF]) False
       = ''a'' @ [CR, LF] @ ''a'' @ [LF]"
  by code_simp

section \<open>Blank lines\<close>

text \<open>
  C2, as stated, says that every blank line of the input is retained in the output. The
  input \<open>"a\n\nb"\<close> has a blank line, the output \<open>"a\nb"\<close> has none.
\<close>

theorem blank_line_lost:
  "[] \<in> set (split_LF (''a'' @ [LF, LF] @ ''b''))
   \<and> processContent (''a'' @ [LF, LF] @ ''b'') False = ''a'' @ [LF] @ ''b''
   \<and> [] \<notin> set (split_LF (processContent (''a'' @ [LF, LF] @ ''b'') False))"
  by code_simp

text \<open>
  C2, amended. Every blank line of the input (empty, or of carriage returns only)
  passes the keep filter, whatever its neighbours are. The newline normalisation then
  collapses every run of line-feeds: for an input without carriage return the output has
  no two adjacent line-feeds, that is, no blank line after its first line.
\<close>

theorem blank_lines_kept_then_collapsed:
  "filter (\<lambda>l. stripCR l = []) (uniqueLines input ic)
     = filter (\<lambda>l. stripCR l = []) (split_LF input)
   \<and> (CR \<notin> set input \<longrightarrow> noDoubleLF (processContent input ic))"
  using uniqueLines_blank processContent_noDoubleLF by blast

theorem blank_lines_kept_then_collapsed_witness:
  "CR \<notin> set (''a'' @ [LF, LF] @ ''b'')
   \<and> noDoubleLF (processContent (''a'' @ [LF, LF] @ ''b'') False)"
  using blank_lines_kept_then_collapsed [of "''a'' @ [LF, LF] @ ''b''" False]
  by simp

section \<open>Trailing newlines\<close>

text \<open>
  C5. An input that ends with a line-feed should give an output that ends with exactly
  one. On \<open>"a\n\r\n"\<close> the trailing pattern matches \<open>"\r\n"\<close>, which is replaced by one
  line-feed next to the line-feed before it: the output ends with two.
\<close>

theorem trailing_newline_after_carriage_return:
  "getTrailingNewlinesCount (''a'' @ [LF, CR, LF]) = 2
   \<and> processContent (''a'' @ [LF, CR, LF]) False = ''a'' @ [LF, LF]"
  by code_simp

section \<open>Running Default Dedup twice\<close>

text \<open>
  C3, as stated, says that \<open>processContent\<close> applied to its own output changes nothing.
  On \<open>"a\n\na"\<close> the first run keeps both lines \<open>a\<close> and removes the blank line between
  them; the second run then removes the second \<open>a\<close>.
\<close>

theorem processContent_not_idempotent:
  "processContent (processContent (''a'' @ [LF, LF] @ ''a'') False) False
     \<noteq> processContent (''a'' @ [LF, LF] @ ''a'') False"
  by code_simp

text \<open>
  C3, amended. For every input that has no carriage return, no two adjacent line-feeds
  and, unless it ends with a line-feed, no white space at its end, and for both values
  of \<open>ignoreCase\<close>, \<open>processContent\<close> applied to its own output returns that output.
\<close>

theorem processContent_idempotent_on_plain_text:
  assumes "CR \<notin> set input"
    and "noDoubleLF input"
    and "input = [] \<or> last input = LF \<or> \<not> isWhiteSpace (last input)"
  shows "processContent (processContent input ic) ic = processContent input ic"
proof -
  let ?t = "processContent input ic"
  have pl: "plainText input" using assms by (simp add: plainText_iff)
  have t: "?t = join_LF (uniqueLines input ic)" and p: "plainText ?t"
    using processContent_plain [OF pl, of ic] by blast+
  have cr: "CR \<notin> set input" by (rule assms(1))
  have "join_LF (uniqueLines ?t ic) = ?t"
    using uniqueLines_stable [OF cr, of ic] t by simp
  then have "processContent ?t ic = updateTrailingNewlines ?t (getTrailingNewlinesCount ?t)"
    by (simp add: processContent_def Let_def)
  also have "\<dots> = ?t"
    using updateTrailing_plain [OF p] trailing_count_iff [of ?t] by blast
  finally show ?thesis .
qed

theorem processContent_idempotent_on_plain_text_witness:
  "CR \<notin> set (''a'' @ [LF] @ ''a'' @ [LF] @ ''b'' @ [LF])
   \<and> noDoubleLF (''a'' @ [LF] @ ''a'' @ [LF] @ ''b'' @ [LF])
   \<and> last (''a'' @ [LF] @ ''a'' @ [LF] @ ''b'' @ [LF]) = LF
   \<and> processContent (processContent (''a'' @ [LF] @ ''a'' @ [LF] @ ''b'' @ [LF]) True) True
       = processContent (''a'' @ [LF] @ ''a'' @ [LF] @ ''b'' @ [LF]) True"
proof -
  have h1: "CR \<notin> set (''a'' @ [LF] @ ''a'' @ [LF] @ ''b'' @ [LF])" by simp
  have h2: "noDoubleLF (''a'' @ [LF] @ ''a'' @ [LF] @ ''b'' @ [LF])" by simp
  have h3: "last (''a'' @ [LF] @ ''a'' @ [LF] @ ''b'' @ [LF]) = LF" by simp
  then have h4: "''a'' @ [LF] @ ''a'' @ [LF] @ ''b'' @ [LF] = []
                 \<or> last (''a'' @ [LF] @ ''a'' @ [LF] @ ''b'' @ [LF]) = LF
                 \<or> \<not> isWhiteSpace (last (''a'' @ [LF] @ ''a'' @ [LF] @ ''b'' @ [LF]))"
    by blast
  show ?thesis
    using h1 h2 h3 processContent_idempotent_on_plain_text [OF h1 h2 h4, of True]
    by blast
qed

section \<open>Counts in Default Dedup mode\<close>

text \<open>
  C1. With \<open>count\<close> set in Default Dedup mode every surviving line should carry its number
  of occurrences in the raw input. The table is built from the raw content with exact
  keys, but \<open>getOutputWithCount\<close> is called with \<open>countEnabled = opts.count\<close>, so it looks
  a line up through \<open>findLineKey\<close>, which compares lower-cased keys and returns the last
  key that matches. On the input \<open>"A\na\na\n"\<close> the line \<open>A\<close>, which occurs once, is
  printed with the count of \<open>a\<close>.
\<close>

theorem count_uses_case_folded_lookup:
  "buildLinesCount (''A'' @ [LF] @ ''a'' @ [LF] @ ''a'' @ [LF]) False
     = [(''A'', Num 1), (''a'', Num 2), ([], Num 1)]
   \<and> zuniq emptyWorld
         (noOptions\<lparr>content := Some (''A'' @ [LF] @ ''a'' @ [LF] @ ''a'' @ [LF]), count := True\<rparr>)
       = ([InvalidPathUsingContent ''undefined''],
          Inr (''2 A'' @ [LF] @ ''2 a'' @ [LF] @ ''1 '', emptyWorld))"
  by code_simp

section \<open>Repeated-only mode\<close>

text \<open>
  C7. The repeated-only mode should list every line that occurs more than once. The
  table is an object that inherits from \<open>Object.prototype\<close>: for the line
  \<open>constructor\<close> the first \<open>linesCount[line] || 0\<close> reads the inherited function, so a string
  is stored in place of a count and \<open>linesCount[line] > 1\<close> is false. On
  \<open>"constructor\nconstructor"\<close> nothing is listed.
\<close>

theorem repeated_mode_inherited_property:
  "buildLinesCount (''constructor'' @ [LF] @ ''constructor'') False
     = [(''constructor'', Str ''function Object() { [native code] }11'')]
   \<and> zuniq emptyWorld
         (noOptions\<lparr>content := Some (''constructor'' @ [LF] @ ''constructor''), repeated := True\<rparr>)
       = ([InvalidPathUsingContent ''undefined''], Inr ([], emptyWorld))"
  by code_simp

section \<open>The case-insensitive table\<close>

text \<open>
  C8. In the case-insensitive table a line that matches a key should increment that key.
  \<open>findLineKey\<close> returns \<open>""\<close> for "no key", and \<open>if (lineKey)\<close> takes the key \<open>""\<close> of the
  empty line for that: every empty line sets the count of \<open>""\<close> back to 1. On \<open>"a\n\n\n"\<close>
  the empty line occurs three times; the exact table says 3, the case-insensitive one 1.
\<close>

theorem case_insensitive_table_empty_line:
  "buildLinesCount (''a'' @ [LF, LF, LF]) True = [(''a'', Num 1), ([], Num 1)]
   \<and> buildLinesCount (''a'' @ [LF, LF, LF]) False = [(''a'', Num 1), ([], Num 3)]"
  by code_simp

end
